theory Spec2Isabelle
  imports Main "HOL-Library.Word"
begin

section \<open>JavaScript strings\<close>

text \<open>
  A JavaScript string is a sequence of 16-bit UTF-16 code units; \<open>length\<close>, \<open>slice_js\<close>,
  \<open>startsWith\<close> and a regular expression without the \<open>u\<close> flag all count and compare code
  units. The Arabic letters of the examples (U+0627 and so on) and the ornate parentheses
  U+FD3F and U+FD3E are one code unit each.
\<close>

type_synonym jschar = "16 word"
type_synonym jsstring = "jschar list"

abbreviation (input) chLBrace :: jschar where "chLBrace \<equiv> 0x7B"
abbreviation (input) chRBrace :: jschar where "chRBrace \<equiv> 0x7D"
abbreviation (input) chLOrnate :: jschar where "chLOrnate \<equiv> 0xFD3F"
abbreviation (input) chROrnate :: jschar where "chROrnate \<equiv> 0xFD3E"
abbreviation (input) chLBracket :: jschar where "chLBracket \<equiv> 0x5B"
abbreviation (input) chRBracket :: jschar where "chRBracket \<equiv> 0x5D"
abbreviation (input) chStar :: jschar where "chStar \<equiv> 0x2A"
abbreviation (input) chUnderscore :: jschar where "chUnderscore \<equiv> 0x5F"
abbreviation (input) chBar :: jschar where "chBar \<equiv> 0x7C"
abbreviation (input) chBackslash :: jschar where "chBackslash \<equiv> 0x5C"

text \<open>\<open>s.startsWith(p)\<close>, \<open>s.endsWith(p)\<close> and \<open>s.includes(p)\<close>.\<close>

fun startsWith :: "jsstring \<Rightarrow> jsstring \<Rightarrow> bool" where
  "startsWith s [] = True"
| "startsWith [] (p # ps) = False"
| "startsWith (c # cs) (p # ps) = (c = p \<and> startsWith cs ps)"

definition endsWith :: "jsstring \<Rightarrow> jsstring \<Rightarrow> bool" where
  "endsWith s p = startsWith (rev s) (rev p)"

fun includesStr :: "jsstring \<Rightarrow> jsstring \<Rightarrow> bool" where
  "includesStr [] p = (p = [])"
| "includesStr (c # cs) p = (startsWith (c # cs) p \<or> includesStr cs p)"

text \<open>
  \<open>s.slice(a, -b)\<close> for \<open>a, b \<ge> 0\<close>: from \<open>min a (length s)\<close> up to \<open>length s - b\<close>, empty
  when the end is not after the start. \<open>s.substring(0, n)\<close> keeps the first \<open>n\<close> code units.
\<close>

definition slice_js :: "jsstring \<Rightarrow> nat \<Rightarrow> nat \<Rightarrow> jsstring" where
  "slice_js s a b = take (length s - b - a) (drop a s)"

definition substring0 :: "jsstring \<Rightarrow> nat \<Rightarrow> jsstring" where
  "substring0 s n = take n s"

text \<open>
  The code units that \<open>\s\<close> matches and that \<open>trim\<close> removes: the ECMAScript WhiteSpace and
  LineTerminator productions.
\<close>

definition isWhiteSpace :: "jschar \<Rightarrow> bool" where
  "isWhiteSpace c =
     (c = 0x09 \<or> c = 0x0A \<or> c = 0x0B \<or> c = 0x0C \<or> c = 0x0D \<or> c = 0x20 \<or> c = 0xA0
      \<or> c = 0x1680 \<or> (0x2000 \<le> c \<and> c \<le> 0x200A) \<or> c = 0x2028 \<or> c = 0x2029
      \<or> c = 0x202F \<or> c = 0x205F \<or> c = 0x3000 \<or> c = 0xFEFF)"

definition trim :: "jsstring \<Rightarrow> jsstring" where
  "trim s = rev (dropWhile isWhiteSpace (rev (dropWhile isWhiteSpace s)))"

section \<open>The token model of textParser.ts\<close>

datatype TokenType = STANDARD | NAME | QURAN | BOLD | ITALIC

text \<open>
  The token id is the template string \<open>token-${lineIndex}-${index}-${Date.now()}\<close>; the model
  keeps its three components.
\<close>

record TextToken =
  tok_id :: "nat \<times> nat \<times> nat"
  tok_text :: jsstring
  tok_type :: TokenType

section \<open>Building the master regular expression\<close>

text \<open>
  \<open>[...customNames].sort((a, b) => b.length - a.length)\<close>: a stable sort, longest first.
  Names of equal length keep their order in \<open>customNames\<close>.
\<close>

fun insertName :: "jsstring \<Rightarrow> jsstring list \<Rightarrow> jsstring list" where
  "insertName n [] = [n]"
| "insertName n (m # ms) = (if length m \<le> length n then n # m # ms else m # insertName n ms)"

fun sortNames :: "jsstring list \<Rightarrow> jsstring list" where
  "sortNames [] = []"
| "sortNames (n # ns) = insertName n (sortNames ns)"

text \<open>\<open>escapeRegExp\<close>: a backslash before each of \<open>. * + ? ^ $ { } ( ) | [ ] \\<close>.\<close>

definition isRegExpSpecial :: "jschar \<Rightarrow> bool" where
  "isRegExpSpecial c = (c \<in> set [0x2E, 0x2A, 0x2B, 0x3F, 0x5E, 0x24, 0x7B, 0x7D, 0x28, 0x29,
     0x7C, 0x5B, 0x5D, 0x5C])"

fun escapeRegExp :: "jsstring \<Rightarrow> jsstring" where
  "escapeRegExp [] = []"
| "escapeRegExp (c # cs) =
     (if isRegExpSpecial c then chBackslash # c # escapeRegExp cs else c # escapeRegExp cs)"

fun join :: "jsstring list \<Rightarrow> jsstring \<Rightarrow> jsstring" where
  "join [] sep = []"
| "join [x] sep = x"
| "join (x # y # ys) sep = x @ sep @ join (y # ys) sep"

definition namesRegexPart :: "jsstring list \<Rightarrow> jsstring" where
  "namesRegexPart sortedNames =
     (if length sortedNames > 0 then join (map escapeRegExp sortedNames) [chBar] else [])"

section \<open>Matching the master regular expression at one position\<close>

text \<open>
  The master expression has no anchor and no look-around, so whether and how far it matches
  at a position depends only on the text from that position on. Each matcher below takes
  that rest and returns the length of the match. Every quantified class is a negated single
  character followed by that very character, so the greedy match is the only one and
  backtracking never finds another.
\<close>

text \<open>\<open>op [^cl]+ cl\<close>: an opener, at least one code unit other than the closer, the closer.\<close>

fun matchDelimited :: "jschar \<Rightarrow> jschar \<Rightarrow> jsstring \<Rightarrow> nat option" where
  "matchDelimited op cl [] = None"
| "matchDelimited op cl (c # cs) =
     (let body = takeWhile (\<lambda>x. x \<noteq> cl) cs in
      if c = op \<and> body \<noteq> [] \<and> length body < length cs then Some (length body + 2) else None)"

text \<open>\<open>\s*\[[^\]]+\]\<close>: the bracketed reference with the white space before it.\<close>

definition matchReference :: "jsstring \<Rightarrow> nat option" where
  "matchReference s =
     (let ws = takeWhile isWhiteSpace s in
      case matchDelimited chLBracket chRBracket (drop (length ws) s) of
        None \<Rightarrow> None
      | Some k \<Rightarrow> Some (length ws + k))"

text \<open>\<open>(?:\{[^}]+\}|U+FD3F[^U+FD3E]+U+FD3E)\<close>: the quotation of a citation.\<close>

definition matchVerse :: "jsstring \<Rightarrow> nat option" where
  "matchVerse s =
     (case matchDelimited chLBrace chRBrace s of
        Some k \<Rightarrow> Some k
      | None \<Rightarrow> matchDelimited chLOrnate chROrnate s)"

text \<open>\<open>quranPattern\<close>: a quotation with an optional reference, or a reference alone.\<close>

definition matchQuran :: "jsstring \<Rightarrow> nat option" where
  "matchQuran s =
     (case matchVerse s of
        Some k \<Rightarrow> (case matchReference (drop k s) of Some j \<Rightarrow> Some (k + j) | None \<Rightarrow> Some k)
      | None \<Rightarrow> matchDelimited chLBracket chRBracket s)"

text \<open>\<open>boldPattern\<close>: \<open>\*\*[^\*]+\*\*\<close>.\<close>

fun matchBold :: "jsstring \<Rightarrow> nat option" where
  "matchBold (a # b # cs) =
     (let body = takeWhile (\<lambda>x. x \<noteq> chStar) cs in
      if a = chStar \<and> b = chStar \<and> body \<noteq> []
         \<and> startsWith (drop (length body) cs) [chStar, chStar]
      then Some (length body + 4) else None)"
| "matchBold s = None"

text \<open>\<open>italicPattern\<close>: \<open>\*[^\*]+\*|_[^_]+_\<close>.\<close>

definition matchItalic :: "jsstring \<Rightarrow> nat option" where
  "matchItalic s =
     (case matchDelimited chStar chStar s of
        Some k \<Rightarrow> Some k
      | None \<Rightarrow> matchDelimited chUnderscore chUnderscore s)"

text \<open>
  The names group \<open>(n1|n2|...)\<close> of escaped names: the first name, in sorted order, that the
  rest starts with. An empty name matches the empty string.
\<close>

fun matchNames :: "jsstring list \<Rightarrow> jsstring \<Rightarrow> nat option" where
  "matchNames [] s = None"
| "matchNames (n # ns) s = (if startsWith s n then Some (length n) else matchNames ns s)"

text \<open>
  The capture groups of the master expression, in order. The names group is there only when
  \<open>namesRegexPart\<close> is a non-empty string.
\<close>

datatype CaptureGroup = QuranGroup | BoldGroup | ItalicGroup | NamesGroup

definition hasNamesGroup :: "jsstring list \<Rightarrow> bool" where
  "hasNamesGroup customNames = (namesRegexPart (sortNames customNames) \<noteq> [])"

text \<open>
  One match attempt of the master expression at the start of \<open>s\<close>: the alternatives in the
  order Quran, Bold, Italic, Names; the first that matches decides. The result is the group
  that captured and the length of the match.
\<close>

definition masterMatch :: "jsstring list \<Rightarrow> jsstring \<Rightarrow> (CaptureGroup \<times> nat) option" where
  "masterMatch customNames s =
     (case matchQuran s of Some k \<Rightarrow> Some (QuranGroup, k) | None \<Rightarrow>
     (case matchBold s of Some k \<Rightarrow> Some (BoldGroup, k) | None \<Rightarrow>
     (case matchItalic s of Some k \<Rightarrow> Some (ItalicGroup, k) | None \<Rightarrow>
     (if hasNamesGroup customNames then
        (case matchNames (sortNames customNames) s of
           Some k \<Rightarrow> Some (NamesGroup, k) | None \<Rightarrow> None)
      else None))))"

section \<open>\<open>String.prototype.split\<close> with the master expression\<close>

text \<open>
  The captures that \<open>split\<close> appends after a match: one entry per capture group, the matched
  text for the group that took part and \<open>undefined\<close> (\<open>None\<close>) for the others.
\<close>

definition captures :: "jsstring list \<Rightarrow> CaptureGroup \<Rightarrow> jsstring \<Rightarrow> jsstring option list" where
  "captures customNames g m =
     [if g = QuranGroup then Some m else None,
      if g = BoldGroup then Some m else None,
      if g = ItalicGroup then Some m else None]
     @ (if hasNamesGroup customNames then [if g = NamesGroup then Some m else None] else [])"

text \<open>
  The loop of \<open>RegExp.prototype[Symbol.split]\<close> on a non-empty string (\<open>tokenizeLine\<close>
  returns before the call when the text is empty). \<open>acc\<close> is the text
  between the end \<open>p\<close> of the last match and the position \<open>q\<close> now tried, \<open>rest\<close> the text
  from \<open>q\<close> on. No match at \<open>q\<close>, or an empty match that ends at \<open>p\<close>, moves \<open>q\<close> one code
  unit on. Any other match appends the text before it and its captures and goes on behind
  the match. At the end of the string the text since the last match is appended.
\<close>

function splitLoop :: "jsstring list \<Rightarrow> jsstring \<Rightarrow> jsstring \<Rightarrow> jsstring option list" where
  "splitLoop customNames acc [] = [Some acc]"
| "splitLoop customNames acc (c # cs) =
     (case masterMatch customNames (c # cs) of
        None \<Rightarrow> splitLoop customNames (acc @ [c]) cs
      | Some (g, k) \<Rightarrow>
          if k = 0 \<and> acc = [] then splitLoop customNames (acc @ [c]) cs
          else Some acc # captures customNames g (take k (c # cs))
               @ splitLoop customNames [] (drop k (c # cs)))"
  by pat_completeness auto
termination
  by (relation "measures [\<lambda>(n, acc, rest). length rest, \<lambda>(n, acc, rest). length acc]") auto

definition split :: "jsstring \<Rightarrow> jsstring list \<Rightarrow> jsstring option list" where
  "split text customNames = splitLoop customNames [] text"

section \<open>\<open>tokenizeLine\<close>\<close>

text \<open>
  The body of the \<open>forEach\<close> callback from \<open>let type = TokenType.STANDARD\<close> to the end of the
  if-chain: the type and the final text of a part, given the cursor.
\<close>

definition classifyPart ::
  "jsstring \<Rightarrow> jsstring list \<Rightarrow> bool \<Rightarrow> nat \<Rightarrow> jsstring \<Rightarrow> TokenType \<times> jsstring" where
  "classifyPart text customNames namesAtStartOnly currentCursor part =
     (if startsWith part [chLBrace] \<or> startsWith part [chLOrnate] \<or> startsWith part [chLBracket]
      then (QURAN, part)
      else if startsWith part [chStar, chStar] \<and> endsWith part [chStar, chStar] \<and> length part > 4
      then
        (let stripped = slice_js part 2 2;
             containsName = list_ex (\<lambda>name. includesStr stripped name) (sortNames customNames)
         in if containsName then
              (if namesAtStartOnly then
                 (let prefix = substring0 text currentCursor in
                  if length (trim prefix) = 0 then (NAME, stripped) else (BOLD, stripped))
               else (NAME, stripped))
            else (BOLD, stripped))
      else if (startsWith part [chStar] \<and> endsWith part [chStar])
              \<or> (startsWith part [chUnderscore] \<and> endsWith part [chUnderscore])
      then (ITALIC, slice_js part 1 1)
      else if part \<in> set customNames then
        (if namesAtStartOnly then
           (let prefix = substring0 text currentCursor in
            if length (trim prefix) = 0 then (NAME, part) else (STANDARD, part))
         else (NAME, part))
      else (STANDARD, part))"

text \<open>
  \<open>parts.forEach\<close>: \<open>index\<close> counts every part, \<open>currentCursor\<close> only the parts that are
  neither \<open>undefined\<close> nor empty. \<open>now index\<close> is what \<open>Date.now()\<close> returns when the token of
  that part is built.
\<close>

fun forEachPart ::
  "jsstring \<Rightarrow> jsstring list \<Rightarrow> nat \<Rightarrow> bool \<Rightarrow> (nat \<Rightarrow> nat) \<Rightarrow> nat \<Rightarrow> nat
     \<Rightarrow> jsstring option list \<Rightarrow> TextToken list" where
  "forEachPart text customNames lineIndex namesAtStartOnly now index currentCursor [] = []"
| "forEachPart text customNames lineIndex namesAtStartOnly now index currentCursor (None # parts) =
     forEachPart text customNames lineIndex namesAtStartOnly now (index + 1) currentCursor parts"
| "forEachPart text customNames lineIndex namesAtStartOnly now index currentCursor (Some part # parts) =
     (if part = [] then
        forEachPart text customNames lineIndex namesAtStartOnly now (index + 1) currentCursor parts
      else
        (let (type, finalText) = classifyPart text customNames namesAtStartOnly currentCursor part in
         \<lparr>tok_id = (lineIndex, index, now index), tok_text = finalText, tok_type = type\<rparr>
         # forEachPart text customNames lineIndex namesAtStartOnly now (index + 1)
             (currentCursor + length part) parts))"

definition tokenizeLine ::
  "jsstring \<Rightarrow> jsstring list \<Rightarrow> nat \<Rightarrow> bool \<Rightarrow> (nat \<Rightarrow> nat) \<Rightarrow> TextToken list" where
  "tokenizeLine text customNames lineIndex namesAtStartOnly now =
     (if text = [] then []
      else forEachPart text customNames lineIndex namesAtStartOnly now 0 0 (split text customNames))"

section \<open>Spans of the emitted tokens\<close>

text \<open>
  The parts for which the \<open>forEach\<close> callback pushes a token: those that are neither
  \<open>undefined\<close> nor the empty string (line 70), in order. Each is the span of the input
  line that its token stands for, before any marker is stripped.
\<close>

fun emittedParts :: "jsstring option list \<Rightarrow> jsstring list" where
  "emittedParts [] = []"
| "emittedParts (None # parts) = emittedParts parts"
| "emittedParts (Some part # parts) =
     (if part = [] then emittedParts parts else part # emittedParts parts)"

definition spans :: "jsstring \<Rightarrow> jsstring list \<Rightarrow> jsstring list" where
  "spans text customNames = (if text = [] then [] else emittedParts (split text customNames))"

text \<open>Each span with the sum of the lengths of the spans before it.\<close>

fun withOffsets :: "nat \<Rightarrow> jsstring list \<Rightarrow> (nat \<times> jsstring) list" where
  "withOffsets c [] = []"
| "withOffsets c (s # ss) = (c, s) # withOffsets (c + length s) ss"

definition located :: "jsstring \<Rightarrow> jsstring list \<Rightarrow> (nat \<times> jsstring) list" where
  "located text customNames = withOffsets 0 (spans text customNames)"

text \<open>What the renderer reads of a token: its type and its text.\<close>

definition view :: "TextToken \<Rightarrow> TokenType \<times> jsstring" where
  "view t = (tok_type t, tok_text t)"

section \<open>The Quran branch of PreviewArea\<close>

datatype VerseBracketType = curly | round | square | angle | quranic

fun getBrackets :: "VerseBracketType \<Rightarrow> jsstring \<times> jsstring" where
  "getBrackets round = ([0x28], [0x29])"
| "getBrackets square = ([chLBracket], [chRBracket])"
| "getBrackets angle = ([0xAB], [0xBB])"
| "getBrackets quranic = ([chLOrnate], [chROrnate])"
| "getBrackets curly = ([chLBrace], [chRBrace])"

text \<open>
  \<open>token.text.match(/^((?:\{[^}]+\}|U+FD3F[^U+FD3E]+U+FD3E))(\s*\[[^\]]+\])?$/)\<close>: the
  quotation in group 1 and, when it is there, the reference with the white space before it
  in group 2 (\<open>None\<close> for \<open>undefined\<close>); the match has to reach the end of the text.
\<close>

definition verseMatch :: "jsstring \<Rightarrow> (jsstring \<times> jsstring option) option" where
  "verseMatch s =
     (case matchVerse s of
        None \<Rightarrow> None
      | Some k \<Rightarrow>
          (case matchReference (drop k s) of
             Some j \<Rightarrow>
               if k + j = length s then Some (take k s, Some (take j (drop k s))) else None
           | None \<Rightarrow> if k = length s then Some (take k s, None) else None))"

text \<open>
  What the component renders for a token of type \<open>QURAN\<close> (lines 109 to 178). A text
  that starts with \<open>[\<close> and ends with \<open>]\<close> is one plain span holding the token text:
  \<open>StandaloneCitation\<close>. Any other text is \<open>BracketedVerse\<close>: a span holding
  \<open>leftBracket\<close>, \<open>content\<close>, \<open>rightBracket\<close>, followed by a span holding \<open>citationContent\<close>
  when that string is not empty.
\<close>

datatype QuranSpan =
    StandaloneCitation jsstring
  | BracketedVerse (leftBracket: jsstring) (content: jsstring) (rightBracket: jsstring)
      (citationContent: jsstring)

definition previewQuranToken :: "jsstring \<Rightarrow> VerseBracketType \<Rightarrow> QuranSpan" where
  "previewQuranToken tokenText verseBrackets =
     (if startsWith tokenText [chLBracket] \<and> endsWith tokenText [chRBracket]
      then StandaloneCitation tokenText
      else
        (let (verseContentRaw, citationContent) =
               (case verseMatch tokenText of
                  None \<Rightarrow> (tokenText, [])
                | Some (g1, g2) \<Rightarrow> (g1, (case g2 of None \<Rightarrow> [] | Some c \<Rightarrow> c)));
             content =
               (if (startsWith verseContentRaw [chLBrace] \<and> endsWith verseContentRaw [chRBrace])
                   \<or> (startsWith verseContentRaw [chLOrnate] \<and> endsWith verseContentRaw [chROrnate])
                then slice_js verseContentRaw 1 1 else verseContentRaw);
             (leftBracket, rightBracket) = getBrackets verseBrackets
         in BracketedVerse leftBracket content rightBracket citationContent))"

section \<open>The example texts\<close>

text \<open>
  The Arabic examples, as code units. \<open>name_rashid\<close> is U+0631 U+0634 U+064A U+062F,
  \<open>name_d_rashid\<close> is U+062F, a full stop, a space and \<open>name_rashid\<close>;
  \<open>name_mustafa\<close> is U+0645 U+0635 U+0637 U+0641 U+0649; \<open>word_qal\<close> is U+0642 U+0627
  U+0644, \<open>word_marhaba\<close> is U+0645 U+0631 U+062D U+0628 U+0627 and \<open>word_alyawm\<close> is
  U+0627 U+0644 U+064A U+0648 U+0645. \<open>text_allah_nur\<close> is the quotation and
  \<open>text_ref_nur_35\<close> the bracketed reference of the citation example.
\<close>

definition name_rashid :: jsstring where
  "name_rashid = [0x631, 0x634, 0x64A, 0x62F]"

definition name_d_rashid :: jsstring where
  "name_d_rashid = [0x62F, 0x2E, 0x20, 0x631, 0x634, 0x64A, 0x62F]"

definition name_mustafa :: jsstring where
  "name_mustafa = [0x645, 0x635, 0x637, 0x641, 0x649]"

definition word_qal :: jsstring where
  "word_qal = [0x642, 0x627, 0x644]"

definition word_marhaba :: jsstring where
  "word_marhaba = [0x645, 0x631, 0x62D, 0x628, 0x627]"

definition word_alyawm :: jsstring where
  "word_alyawm = [0x627, 0x644, 0x64A, 0x648, 0x645]"

definition text_allah_nur :: jsstring where
  "text_allah_nur = [0x627, 0x644, 0x644, 0x647, 0x20, 0x646, 0x648, 0x631]"

definition text_ref_nur_35 :: jsstring where
  "text_ref_nur_35 = [0x5B, 0x627, 0x644, 0x646, 0x648, 0x631, 0x3A, 0x20, 0x33, 0x35, 0x5D]"

text \<open>The bold example: two stars, \<open>name_d_rashid\<close>, a colon, two stars, a space, \<open>word_qal\<close>.\<close>

definition line_bold_d_rashid :: jsstring where
  "line_bold_d_rashid = [0x2A, 0x2A] @ name_d_rashid @ [0x3A, 0x2A, 0x2A, 0x20] @ word_qal"

definition line_marhaba_mustafa :: jsstring where
  "line_marhaba_mustafa = word_marhaba @ [0x20] @ name_mustafa"

definition line_mustafa_qal :: jsstring where
  "line_mustafa_qal = name_mustafa @ [0x20] @ word_qal"

definition line_qal_d_rashid_alyawm :: jsstring where
  "line_qal_d_rashid_alyawm = word_qal @ [0x20] @ name_d_rashid @ [0x20] @ word_alyawm"

text \<open>The citation example: \<open>{\<close>, the quotation, \<open>}\<close>, a space, the reference.\<close>

definition line_citation :: jsstring where
  "line_citation = [0x7B] @ text_allah_nur @ [0x7D, 0x20] @ text_ref_nur_35"

text \<open>A clock for the closed examples: \<open>Date.now()\<close> returns 0 each time.\<close>

definition now0 :: "nat \<Rightarrow> nat" where
  "now0 i = 0"

section \<open>Reconstruction of the line from the parts\<close>

lemma masterMatch_NamesGroup:
  "masterMatch ns s = Some (NamesGroup, k) \<Longrightarrow> hasNamesGroup ns"
  by (auto simp: masterMatch_def split: option.splits if_splits)

lemma emittedParts_captures:
  "(g = NamesGroup \<Longrightarrow> hasNamesGroup ns) \<Longrightarrow>
   emittedParts (captures ns g m @ ps) = (if m = [] then emittedParts ps else m # emittedParts ps)"
  by (cases g) (simp_all add: captures_def)

lemma splitLoop_match:
  assumes "masterMatch ns (c # cs) = Some (g, k)" "\<not> (k = 0 \<and> acc = [])"
  shows "splitLoop ns acc (c # cs)
         = Some acc # captures ns g (take k (c # cs)) @ splitLoop ns [] (drop k (c # cs))"
  using assms by (subst splitLoop.simps) (auto simp del: splitLoop.simps)

lemma concat_splitLoop: "concat (emittedParts (splitLoop ns acc rest)) = acc @ rest"
proof (induction ns acc rest rule: splitLoop.induct)
  case (1 ns acc)
  show ?case by simp
next
  case (2 ns acc c cs)
  show ?case
  proof (cases "masterMatch ns (c # cs)")
    case None
    with 2 show ?thesis by simp
  next
    case (Some gk)
    obtain g k where gk: "gk = (g, k)" by (cases gk)
    show ?thesis
    proof (cases "k = 0 \<and> acc = []")
      case True
      with 2 Some gk show ?thesis by simp
    next
      case False
      define M where "M = take k (c # cs)"
      define R where "R = drop k (c # cs)"
      have MR: "M @ R = c # cs"
        by (simp add: M_def R_def del: drop_Suc_Cons take_Suc_Cons)
      have unf: "splitLoop ns acc (c # cs) = Some acc # captures ns g M @ splitLoop ns [] R"
        unfolding M_def R_def using Some gk False by (intro splitLoop_match) simp_all
      have IH: "concat (emittedParts (splitLoop ns [] R)) = R"
        using 2(3)[OF Some gk[symmetric] False] by (simp add: R_def)
      have grp: "g = NamesGroup \<Longrightarrow> hasNamesGroup ns"
        using Some gk masterMatch_NamesGroup by blast
      have "concat (emittedParts (Some acc # captures ns g M @ splitLoop ns [] R)) = acc @ M @ R"
        using IH grp by (simp add: emittedParts_captures del: splitLoop.simps)
      then show ?thesis
        unfolding unf MR .
    qed
  qed
qed

lemma concat_spans: "concat (spans ln ns) = ln"
  by (simp add: spans_def split_def concat_splitLoop)

lemma emittedParts_nonempty: "s \<in> set (emittedParts ps) \<Longrightarrow> s \<noteq> []"
  by (induction ps rule: emittedParts.induct) (auto split: if_splits)

lemma spans_nonempty: "s \<in> set (spans ln ns) \<Longrightarrow> s \<noteq> []"
  by (auto simp: spans_def dest: emittedParts_nonempty split: if_splits)

section \<open>Tokens and spans\<close>

lemma view_forEachPart:
  "map view (forEachPart ln ns li a now idx cur ps)
   = map (\<lambda>(off, span). classifyPart ln ns a off span) (withOffsets cur (emittedParts ps))"
  by (induction ln ns li a now idx cur ps rule: forEachPart.induct)
     (auto simp: view_def split: prod.splits)

lemma view_tokenizeLine:
  "map view (tokenizeLine ln ns li a now)
   = map (\<lambda>(off, span). classifyPart ln ns a off span) (located ln ns)"
  by (simp add: tokenizeLine_def located_def spans_def view_forEachPart)

lemma length_withOffsets: "length (withOffsets c ss) = length ss"
  by (induction ss arbitrary: c) simp_all

lemma withOffsets_nth:
  "i < length ss \<Longrightarrow> withOffsets c ss ! i = (c + length (concat (take i ss)), ss ! i)"
proof (induction ss arbitrary: c i)
  case Nil
  then show ?case by simp
next
  case (Cons s ss)
  then show ?case by (cases i) simp_all
qed

lemma length_tokenizeLine: "length (tokenizeLine ln ns li a now) = length (spans ln ns)"
proof -
  have "length (map view (tokenizeLine ln ns li a now)) = length (located ln ns)"
    by (simp add: view_tokenizeLine)
  then show ?thesis by (simp add: located_def length_withOffsets)
qed

lemma view_tokenizeLine_nth:
  assumes "i < length (spans ln ns)"
  shows "view (tokenizeLine ln ns li a now ! i)
         = classifyPart ln ns a (length (concat (take i (spans ln ns)))) (spans ln ns ! i)"
proof -
  have "view (tokenizeLine ln ns li a now ! i) = map view (tokenizeLine ln ns li a now) ! i"
    using assms by (simp add: length_tokenizeLine)
  also have "\<dots> = (\<lambda>(off, span). classifyPart ln ns a off span) (located ln ns ! i)"
    using assms by (simp add: view_tokenizeLine located_def length_withOffsets)
  finally show ?thesis using assms by (simp add: located_def withOffsets_nth)
qed

text \<open>A span sits in the line right behind the spans before it.\<close>

lemma span_position:
  assumes "i < length (spans ln ns)"
  shows "ln = concat (take i (spans ln ns)) @ spans ln ns ! i @ concat (drop (Suc i) (spans ln ns))"
proof -
  have "spans ln ns = take i (spans ln ns) @ spans ln ns ! i # drop (Suc i) (spans ln ns)"
    using assms by (simp add: id_take_nth_drop)
  then have "concat (spans ln ns)
      = concat (take i (spans ln ns) @ spans ln ns ! i # drop (Suc i) (spans ln ns))"
    by simp
  then show ?thesis by (simp add: concat_spans)
qed


lemma classifyPart_text:
  "snd (classifyPart ln ns a cur part) \<in> {part, slice_js part 2 2, slice_js part 1 1}"
  by (simp add: classifyPart_def Let_def)

lemma map_view_eq_all2:
  "map view xs = map view ys \<Longrightarrow>
   list_all2 (\<lambda>s t. tok_type s = tok_type t \<and> tok_text s = tok_text t) xs ys"
proof (induction xs arbitrary: ys)
  case Nil
  then show ?case by simp
next
  case (Cons x xs)
  then show ?case by (cases ys) (auto simp: view_def)
qed

text \<open>The unfoldings that evaluate the tokenizer on a closed input.\<close>

lemmas tokenizer_eval = tokenizeLine_def split_def masterMatch_def matchQuran_def matchVerse_def
  matchReference_def matchItalic_def isWhiteSpace_def captures_def hasNamesGroup_def
  namesRegexPart_def isRegExpSpecial_def classifyPart_def endsWith_def slice_js_def
  substring0_def trim_def view_def spans_def located_def

section \<open>String predicates\<close>

lemma startsWith_iff: "startsWith s p \<longleftrightarrow> (\<exists>v. s = p @ v)"
  by (induction s p rule: startsWith.induct) auto

lemma startsWith_take: "startsWith s p \<longleftrightarrow> take (length p) s = p"
  by (induction s p rule: startsWith.induct) auto

lemma includesStr_iff: "includesStr s p \<longleftrightarrow> (\<exists>u v. s = u @ p @ v)"
proof (induction s)
  case Nil
  then show ?case by auto
next
  case (Cons c cs)
  show ?case
  proof
    assume "includesStr (c # cs) p"
    then consider "startsWith (c # cs) p" | "includesStr cs p" by auto
    then show "\<exists>u v. c # cs = u @ p @ v"
    proof cases
      case 1
      then obtain v where "c # cs = p @ v" using startsWith_iff by blast
      then have "c # cs = [] @ p @ v" by simp
      then show ?thesis by blast
    next
      case 2
      then obtain u v where "cs = u @ p @ v" using Cons.IH by blast
      then have "c # cs = (c # u) @ p @ v" by simp
      then show ?thesis by blast
    qed
  next
    assume "\<exists>u v. c # cs = u @ p @ v"
    then obtain u v where uv: "c # cs = u @ p @ v" by blast
    show "includesStr (c # cs) p"
    proof (cases u)
      case Nil
      with uv have "startsWith (c # cs) p" using startsWith_iff by auto
      then show ?thesis by simp
    next
      case (Cons d u')
      with uv have "cs = u' @ p @ v" by simp
      then have "includesStr cs p" using Cons.IH by blast
      then show ?thesis by simp
    qed
  qed
qed

section \<open>The sorted names and the names group\<close>

lemma set_insertName: "set (insertName n ns) = insert n (set ns)"
  by (induction ns) auto

lemma set_sortNames: "set (sortNames ns) = set ns"
  by (induction ns) (simp_all add: set_insertName)

lemma length_insertName: "length (insertName n ns) = Suc (length ns)"
  by (induction ns) auto

lemma length_sortNames: "length (sortNames ns) = length ns"
  by (induction ns) (simp_all add: length_insertName)

lemma longestFirst_insertName:
  "sorted_wrt (\<lambda>a b. length b \<le> length a) ns \<Longrightarrow>
   sorted_wrt (\<lambda>a b. length b \<le> length a) (insertName n ns)"
  by (induction ns) (auto simp: set_insertName)

lemma longestFirst_sortNames: "sorted_wrt (\<lambda>a b. length b \<le> length a) (sortNames ns)"
  by (induction ns) (simp_all add: longestFirst_insertName)

lemma matchNames_Some:
  "matchNames ns s = Some k \<Longrightarrow> \<exists>n \<in> set ns. startsWith s n \<and> length n = k"
  by (induction ns) (auto split: if_splits)

lemma matchNames_None: "matchNames ns s = None \<longleftrightarrow> (\<forall>n \<in> set ns. \<not> startsWith s n)"
  by (induction ns) auto

lemma matchNames_longest:
  "sorted_wrt (\<lambda>a b. length b \<le> length a) ns \<Longrightarrow> matchNames ns s = Some k \<Longrightarrow>
   m \<in> set ns \<Longrightarrow> startsWith s m \<Longrightarrow> length m \<le> k"
proof (induction ns)
  case Nil
  then show ?case by simp
next
  case (Cons n ns)
  show ?case
  proof (cases "startsWith s n")
    case True
    with Cons.prems show ?thesis by auto
  next
    case False
    with Cons show ?thesis by auto
  qed
qed

lemma escapeRegExp_Nil: "escapeRegExp n = [] \<longleftrightarrow> n = []"
  by (cases n) auto

lemma join_Nil: "sep \<noteq> [] \<Longrightarrow> join xs sep = [] \<longleftrightarrow> xs = [] \<or> xs = [[]]"
  by (induction xs sep rule: join.induct) auto

lemma hasNamesGroup_iff: "hasNamesGroup ns \<longleftrightarrow> ns \<noteq> [] \<and> ns \<noteq> [[]]"
proof -
  have "sortNames ns = [] \<longleftrightarrow> ns = []"
    by (metis length_0_conv length_sortNames)
  moreover have "sortNames ns = [[]] \<longleftrightarrow> ns = [[]]"
  proof
    assume a: "sortNames ns = [[]]"
    then have "length ns = 1" by (metis length_sortNames length_Cons list.size(3) One_nat_def)
    moreover have "set ns = {[]}" using a set_sortNames[of ns] by simp
    ultimately show "ns = [[]]" by (cases ns) auto
  qed simp
  ultimately show ?thesis
    by (auto simp: hasNamesGroup_def namesRegexPart_def join_Nil escapeRegExp_Nil map_eq_Cons_conv)
qed

lemma hasNamesGroup_member: "m \<in> set ns \<Longrightarrow> m \<noteq> [] \<Longrightarrow> hasNamesGroup ns"
  by (auto simp: hasNamesGroup_iff)

lemma masterMatch_names:
  "masterMatch ns s = Some (NamesGroup, k) \<longleftrightarrow>
   matchQuran s = None \<and> matchBold s = None \<and> matchItalic s = None \<and> hasNamesGroup ns
   \<and> matchNames (sortNames ns) s = Some k"
  by (auto simp: masterMatch_def split: option.splits)

section \<open>Classification of bold spans and of names\<close>

lemma endsWith_iff: "endsWith s p \<longleftrightarrow> (\<exists>u. s = u @ p)"
proof -
  have "(\<exists>v. rev s = rev p @ v) \<longleftrightarrow> (\<exists>u. s = u @ p)"
  proof
    assume "\<exists>v. rev s = rev p @ v"
    then obtain v where "rev s = rev p @ v" by blast
    then have "s = rev v @ p" by (metis rev_append rev_rev_ident)
    then show "\<exists>u. s = u @ p" by blast
  next
    assume "\<exists>u. s = u @ p"
    then obtain u where "s = u @ p" by blast
    then have "rev s = rev p @ rev u" by simp
    then show "\<exists>v. rev s = rev p @ v" by blast
  qed
  then show ?thesis by (simp add: endsWith_def startsWith_iff)
qed

lemma dropWhile_rev_dropWhile:
  "dropWhile P (rev (dropWhile P s)) = [] \<longleftrightarrow> dropWhile P s = []"
proof (cases "dropWhile P s")
  case Nil
  then show ?thesis by (simp only: rev.simps dropWhile.simps)
next
  case (Cons c cs)
  then have "\<not> P c" by (metis hd_dropWhile list.sel(1) list.distinct(1))
  then have "dropWhile P (rev (c # cs)) \<noteq> []"
    by (auto simp: dropWhile_eq_Nil_conv)
  with Cons show ?thesis by (simp only: list.distinct)
qed

lemma trim_empty_iff: "length (trim s) = 0 \<longleftrightarrow> (\<forall>c \<in> set s. isWhiteSpace c)"
proof -
  have "length (trim s) = 0 \<longleftrightarrow> dropWhile isWhiteSpace (rev (dropWhile isWhiteSpace s)) = []"
    by (simp add: trim_def)
  also have "\<dots> \<longleftrightarrow> dropWhile isWhiteSpace s = []" by (rule dropWhile_rev_dropWhile)
  also have "\<dots> \<longleftrightarrow> (\<forall>c \<in> set s. isWhiteSpace c)" by (simp add: dropWhile_eq_Nil_conv)
  finally show ?thesis .
qed

lemma list_ex_sortNames: "list_ex P (sortNames ns) \<longleftrightarrow> (\<exists>n \<in> set ns. P n)"
  by (simp add: list_ex_iff set_sortNames)

lemma classifyPart_bold:
  assumes "inner \<noteq> []"
  shows "classifyPart ln ns a cur ([chStar, chStar] @ inner @ [chStar, chStar])
         = (if \<exists>n \<in> set ns. includesStr inner n
            then (if a \<and> \<not> (\<forall>c \<in> set (take cur ln). isWhiteSpace c) then BOLD else NAME)
            else BOLD, inner)"
proof -
  have len: "length ([chStar, chStar] @ inner @ [chStar, chStar]) > 4"
    using assms by (cases inner) simp_all
  have sl: "slice_js ([chStar, chStar] @ inner @ [chStar, chStar]) 2 2 = inner"
    by (simp add: slice_js_def)
  have e: "endsWith ([chStar, chStar] @ inner @ [chStar, chStar]) [chStar, chStar]"
    by (simp add: endsWith_def)
  show ?thesis
    unfolding classifyPart_def sl Let_def list_ex_sortNames trim_empty_iff substring0_def
    using len e by simp
qed

lemma classifyPart_name:
  assumes "part \<in> set ns"
    and "\<not> startsWith part [chLBrace]" "\<not> startsWith part [chLOrnate]"
    and "\<not> startsWith part [chLBracket]"
    and "\<not> (startsWith part [chStar] \<and> endsWith part [chStar])"
    and "\<not> (startsWith part [chUnderscore] \<and> endsWith part [chUnderscore])"
  shows "classifyPart ln ns a cur part
         = (if a \<and> \<not> (\<forall>c \<in> set (take cur ln). isWhiteSpace c) then STANDARD else NAME, part)"
proof -
  have "\<not> (startsWith part [chStar, chStar] \<and> endsWith part [chStar, chStar])"
  proof
    assume h: "startsWith part [chStar, chStar] \<and> endsWith part [chStar, chStar]"
    then obtain v where "part = [chStar, chStar] @ v" using startsWith_iff by blast
    then have "part = [chStar] @ (chStar # v)" by simp
    then have 1: "startsWith part [chStar]" using startsWith_iff by blast
    from h obtain u where "part = u @ [chStar, chStar]" using endsWith_iff by blast
    then have "part = (u @ [chStar]) @ [chStar]" by simp
    then have "endsWith part [chStar]" using endsWith_iff by blast
    with 1 assms(5) show False by blast
  qed
  then have b: "(startsWith part [chStar, chStar] \<and> endsWith part [chStar, chStar]
                 \<and> length part > 4) = False"
    by blast
  have q: "(startsWith part [chLBrace] \<or> startsWith part [chLOrnate]
            \<or> startsWith part [chLBracket]) = False"
    using assms(2-4) by simp
  have i: "((startsWith part [chStar] \<and> endsWith part [chStar])
            \<or> (startsWith part [chUnderscore] \<and> endsWith part [chUnderscore])) = False"
    using assms(5,6) by simp
  have m: "(part \<in> set ns) = True"
    using assms(1) by simp
  show ?thesis
    unfolding classifyPart_def Let_def q b i m trim_empty_iff substring0_def
    by simp
qed

lemma matchBold_shape:
  assumes "matchBold s = Some k"
  shows "\<exists>inner. inner \<noteq> [] \<and> chStar \<notin> set inner
           \<and> take k s = [chStar, chStar] @ inner @ [chStar, chStar]"
proof -
  from assms obtain a b cs where s: "s = a # b # cs"
    by (cases s rule: matchBold.cases) auto
  define inner where "inner = takeWhile (\<lambda>x. x \<noteq> chStar) cs"
  from assms s have ab: "a = chStar" "b = chStar" and ne: "inner \<noteq> []"
    and sw: "startsWith (drop (length inner) cs) [chStar, chStar]" and k: "k = length inner + 4"
    by (auto simp: inner_def Let_def split: if_splits)
  from sw obtain v where v: "drop (length inner) cs = [chStar, chStar] @ v"
    using startsWith_iff by blast
  have "cs = inner @ drop (length inner) cs"
    unfolding inner_def by (metis takeWhile_eq_take append_take_drop_id)
  with v have cs: "cs = inner @ [chStar, chStar] @ v" by simp
  have "chStar \<notin> set inner"
    unfolding inner_def by (auto dest: set_takeWhileD)
  moreover have "take (length inner + 4) (chStar # chStar # inner @ [chStar, chStar] @ v)
      = [chStar, chStar] @ inner @ [chStar, chStar]"
    by (simp add: numeral_eq_Suc)
  then have "take k s = [chStar, chStar] @ inner @ [chStar, chStar]"
    unfolding s ab k by (subst cs)
  ultimately show ?thesis using ne by blast
qed

lemma masterMatch_bold: "masterMatch ns s = Some (BoldGroup, k) \<Longrightarrow> matchBold s = Some k"
  by (auto simp: masterMatch_def split: option.splits if_splits)

lemma take_offset:
  assumes "i < length (spans ln ns)"
  shows "take (length (concat (take i (spans ln ns)))) ln = concat (take i (spans ln ns))"
proof -
  have "ln = concat (take i (spans ln ns))
        @ (spans ln ns ! i @ concat (drop (Suc i) (spans ln ns)))"
    using span_position[OF assms] by simp
  then show ?thesis by (metis append_eq_conv_conj)
qed

section \<open>Lines that are one citation\<close>

lemma masterMatch_quran: "matchQuran s = Some k \<Longrightarrow> masterMatch ns s = Some (QuranGroup, k)"
  by (simp add: masterMatch_def)

text \<open>A non-empty line that the citation pattern matches as a whole is the only span.\<close>

lemma spans_whole_citation:
  assumes "ln \<noteq> []" "matchQuran ln = Some (length ln)"
  shows "spans ln ns = [ln]"
proof -
  from assms(1) obtain c cs where ln: "ln = c # cs" by (cases ln) auto
  have m: "masterMatch ns (c # cs) = Some (QuranGroup, length (c # cs))"
    using assms(2) unfolding ln by (rule masterMatch_quran)
  have "splitLoop ns [] (c # cs)
        = Some [] # captures ns QuranGroup (take (length (c # cs)) (c # cs))
          @ splitLoop ns [] (drop (length (c # cs)) (c # cs))"
    using m by (rule splitLoop_match) simp
  then have "splitLoop ns [] (c # cs) = Some [] # captures ns QuranGroup (c # cs) @ [Some []]"
    by simp
  moreover have "emittedParts (captures ns QuranGroup (c # cs) @ [Some []]) = [c # cs]"
    by (subst emittedParts_captures) simp_all
  ultimately have "emittedParts (splitLoop ns [] (c # cs)) = [c # cs]"
    by (simp del: splitLoop.simps)
  then show ?thesis by (simp add: spans_def split_def ln del: splitLoop.simps)
qed

lemma view_whole_citation:
  assumes "ln \<noteq> []" "matchQuran ln = Some (length ln)"
  shows "map view (tokenizeLine ln ns li a now) = [classifyPart ln ns a 0 ln]"
  by (simp add: view_tokenizeLine located_def spans_whole_citation[OF assms])

section \<open>Coverage of the line\<close>

text \<open>
  Claim C1. For every line, dictionary and policy flag, the spans of the emitted tokens,
  concatenated in order, are the line: the tokens are as many as the spans, and the token at
  position \<open>i\<close> is the classification of the non-empty span \<open>i\<close>, which sits in the line
  right behind the spans before it and right before the spans after it, the cursor being
  the length of the spans before it. The text of the token is that span, or that span
  without its first and last two, or first and last one, code units.
\<close>

theorem tokenizeLine_spans_reconstruct_line:
  "concat (spans ln names) = ln
   \<and> length (tokenizeLine ln names li a now) = length (spans ln names)
   \<and> (\<forall>i < length (spans ln names).
         spans ln names ! i \<noteq> []
       \<and> ln = concat (take i (spans ln names)) @ spans ln names ! i
               @ concat (drop (Suc i) (spans ln names))
       \<and> view (tokenizeLine ln names li a now ! i)
           = classifyPart ln names a (length (concat (take i (spans ln names))))
               (spans ln names ! i)
       \<and> tok_text (tokenizeLine ln names li a now ! i)
           \<in> {spans ln names ! i, slice_js (spans ln names ! i) 2 2,
              slice_js (spans ln names ! i) 1 1})"
proof (intro conjI allI impI)
  show "concat (spans ln names) = ln" by (rule concat_spans)
  show "length (tokenizeLine ln names li a now) = length (spans ln names)"
    by (rule length_tokenizeLine)
next
  fix i assume i: "i < length (spans ln names)"
  then show "spans ln names ! i \<noteq> []" using spans_nonempty nth_mem by blast
  show "ln = concat (take i (spans ln names)) @ spans ln names ! i
               @ concat (drop (Suc i) (spans ln names))"
    using i by (rule span_position)
  show v: "view (tokenizeLine ln names li a now ! i)
           = classifyPart ln names a (length (concat (take i (spans ln names))))
               (spans ln names ! i)"
    using i by (rule view_tokenizeLine_nth)
  have "tok_text (tokenizeLine ln names li a now ! i)
        = snd (view (tokenizeLine ln names li a now ! i))"
    by (simp add: view_def)
  then show "tok_text (tokenizeLine ln names li a now ! i)
           \<in> {spans ln names ! i, slice_js (spans ln names ! i) 2 2,
              slice_js (spans ln names ! i) 1 1}"
    unfolding v using classifyPart_text by simp
qed

theorem tokenizeLine_spans_reconstruct_line_witness:
  "spans line_bold_d_rashid [name_d_rashid]
     = [[0x2A, 0x2A] @ name_d_rashid @ [0x3A, 0x2A, 0x2A], [0x20] @ word_qal]
   \<and> (1::nat) < length (spans line_bold_d_rashid [name_d_rashid])
   \<and> view (tokenizeLine line_bold_d_rashid [name_d_rashid] 0 True now0 ! 1)
       = (STANDARD, [0x20] @ word_qal)"
proof -
  have s: "spans line_bold_d_rashid [name_d_rashid]
     = [[0x2A, 0x2A] @ name_d_rashid @ [0x3A, 0x2A, 0x2A], [0x20] @ word_qal]"
    by (simp add: tokenizer_eval line_bold_d_rashid_def name_d_rashid_def word_qal_def)
  show ?thesis
    using tokenizeLine_spans_reconstruct_line
      [of line_bold_d_rashid "[name_d_rashid]" 0 True now0]
    unfolding s
    by (simp add: classifyPart_def endsWith_def line_bold_d_rashid_def name_d_rashid_def
      word_qal_def)
qed

section \<open>Determinism\<close>

text \<open>
  Claim C10. For a fixed line, dictionary and policy flag, two runs of the tokenizer, whatever
  the line index and whatever the clock returns in each, give token sequences of the same
  length with, position by position, the same type and the same text.
\<close>

theorem tokenizeLine_deterministic:
  "list_all2 (\<lambda>s t. tok_type s = tok_type t \<and> tok_text s = tok_text t)
     (tokenizeLine ln names li a now) (tokenizeLine ln names li' a now')"
  by (rule map_view_eq_all2) (simp add: view_tokenizeLine)

section \<open>Longest name first\<close>

text \<open>
  Claim C4, amended. Whenever the names group of the master expression matches at a position,
  the matched text is a dictionary entry that the rest of the line starts with, and no
  dictionary entry that the rest starts with is longer: a shorter name never takes the place
  of a longer one that matches at the same position. Whenever the scan stands where a
  non-empty entry begins and the citation, bold and italic patterns do not match there, the
  names group matches at least as long as that entry, and \<open>split\<close> emits the whole match as
  one part and goes on behind it, so that no entry that begins inside the match is matched
  on its own. With the dictionary \<open>name_rashid\<close>, \<open>name_d_rashid\<close> the line
  \<open>line_qal_d_rashid_alyawm\<close> is split at \<open>name_d_rashid\<close>, and that span is the name token.
\<close>

theorem longest_name_first:
  "(\<forall>s k. masterMatch names s = Some (NamesGroup, k)
       \<longrightarrow> take k s \<in> set names \<and> startsWith s (take k s)
           \<and> (\<forall>m \<in> set names. startsWith s m \<longrightarrow> length m \<le> k))
   \<and> (\<forall>s m. m \<in> set names \<and> m \<noteq> [] \<and> startsWith s m
            \<and> matchQuran s = None \<and> matchBold s = None \<and> matchItalic s = None
       \<longrightarrow> (\<exists>k. masterMatch names s = Some (NamesGroup, k) \<and> length m \<le> k
              \<and> (\<forall>acc. splitLoop names acc s
                    = [Some acc, None, None, None, Some (take k s)]
                      @ splitLoop names [] (drop k s))))
   \<and> split line_qal_d_rashid_alyawm [name_rashid, name_d_rashid]
       = [Some (word_qal @ [0x20]), None, None, None, Some name_d_rashid,
          Some ([0x20] @ word_alyawm)]
   \<and> map view (tokenizeLine line_qal_d_rashid_alyawm [name_rashid, name_d_rashid] li False now)
       = [(STANDARD, word_qal @ [0x20]), (NAME, name_d_rashid), (STANDARD, [0x20] @ word_alyawm)]"
proof (intro conjI allI impI)
  fix s k assume mm: "masterMatch names s = Some (NamesGroup, k)"
  then have mn: "matchNames (sortNames names) s = Some k"
    by (simp add: masterMatch_names)
  then obtain n where n: "n \<in> set names" "startsWith s n" "length n = k"
    using matchNames_Some set_sortNames by blast
  then have t: "take k s = n" by (auto simp: startsWith_take)
  show "take k s \<in> set names" using t n by simp
  show "startsWith s (take k s)" using t n by simp
  show "\<forall>m \<in> set names. startsWith s m \<longrightarrow> length m \<le> k"
    using matchNames_longest[OF longestFirst_sortNames mn] set_sortNames by blast
next
  fix s m
  assume h: "m \<in> set names \<and> m \<noteq> [] \<and> startsWith s m
            \<and> matchQuran s = None \<and> matchBold s = None \<and> matchItalic s = None"
  then have g: "hasNamesGroup names" using hasNamesGroup_member by blast
  from h have "matchNames (sortNames names) s \<noteq> None"
    by (auto simp: matchNames_None set_sortNames)
  then obtain k where k: "matchNames (sortNames names) s = Some k" by blast
  then have mm: "masterMatch names s = Some (NamesGroup, k)"
    using h g by (simp add: masterMatch_names)
  have mk: "length m \<le> k"
    using matchNames_longest[OF longestFirst_sortNames k] h set_sortNames by blast
  then have k0: "k \<noteq> 0" using h by (cases m) auto
  from h obtain c cs where s: "s = c # cs" by (cases s; cases m) auto
  have "\<forall>acc. splitLoop names acc s
          = [Some acc, None, None, None, Some (take k s)] @ splitLoop names [] (drop k s)"
  proof
    fix acc
    have "splitLoop names acc (c # cs)
          = Some acc # captures names NamesGroup (take k (c # cs))
            @ splitLoop names [] (drop k (c # cs))"
      using mm k0 unfolding s by (intro splitLoop_match) simp_all
    then show "splitLoop names acc s
          = [Some acc, None, None, None, Some (take k s)] @ splitLoop names [] (drop k s)"
      unfolding s using g
      by (simp add: captures_def del: splitLoop.simps take_Suc_Cons drop_Suc_Cons)
  qed
  with mm mk show "\<exists>k. masterMatch names s = Some (NamesGroup, k) \<and> length m \<le> k
              \<and> (\<forall>acc. splitLoop names acc s
                    = [Some acc, None, None, None, Some (take k s)]
                      @ splitLoop names [] (drop k s))"
    by blast
next
  show "split line_qal_d_rashid_alyawm [name_rashid, name_d_rashid]
       = [Some (word_qal @ [0x20]), None, None, None, Some name_d_rashid,
          Some ([0x20] @ word_alyawm)]"
    by (simp add: tokenizer_eval line_qal_d_rashid_alyawm_def name_rashid_def name_d_rashid_def
      word_qal_def word_alyawm_def)
  show "map view (tokenizeLine line_qal_d_rashid_alyawm [name_rashid, name_d_rashid] li False now)
       = [(STANDARD, word_qal @ [0x20]), (NAME, name_d_rashid), (STANDARD, [0x20] @ word_alyawm)]"
    by (simp add: tokenizer_eval line_qal_d_rashid_alyawm_def name_rashid_def name_d_rashid_def
      word_qal_def word_alyawm_def)
qed

theorem longest_name_first_witness:
  "[0x61] \<in> set [[0x61], [0x61, 0x62 :: jschar]] \<and> [0x61 :: jschar] \<noteq> []
   \<and> startsWith [0x61, 0x62, 0x63] [0x61]
   \<and> matchQuran [0x61, 0x62, 0x63] = None \<and> matchBold [0x61, 0x62, 0x63] = None
   \<and> matchItalic [0x61, 0x62, 0x63] = None
   \<and> masterMatch [[0x61], [0x61, 0x62]] [0x61, 0x62, 0x63] = Some (NamesGroup, 2)
   \<and> take 2 [0x61, 0x62, 0x63 :: jschar] \<in> set [[0x61], [0x61, 0x62]]
   \<and> startsWith [0x61, 0x62, 0x63] (take 2 [0x61, 0x62, 0x63])
   \<and> length [0x61 :: jschar] \<le> 2"
proof -
  have h: "[0x61] \<in> set [[0x61], [0x61, 0x62 :: jschar]] \<and> [0x61 :: jschar] \<noteq> []
      \<and> startsWith [0x61, 0x62, 0x63] [0x61]
      \<and> matchQuran [0x61, 0x62, 0x63] = None \<and> matchBold [0x61, 0x62, 0x63] = None
      \<and> matchItalic [0x61, 0x62, 0x63] = None"
    by (simp add: matchQuran_def matchVerse_def matchItalic_def)
  have m: "masterMatch [[0x61], [0x61, 0x62]] [0x61, 0x62, 0x63] = Some (NamesGroup, 2)"
    by (simp add: tokenizer_eval)
  have "take 2 [0x61, 0x62, 0x63 :: jschar] \<in> set [[0x61], [0x61, 0x62]]
      \<and> startsWith [0x61, 0x62, 0x63] (take 2 [0x61, 0x62, 0x63])
      \<and> (\<forall>m \<in> set [[0x61], [0x61, 0x62 :: jschar]].
            startsWith [0x61, 0x62, 0x63] m \<longrightarrow> length m \<le> 2)"
    using longest_name_first [of "[[0x61], [0x61, 0x62]]" 0 now0, THEN conjunct1, rule_format,
        OF m] .
  then show ?thesis using h m by auto
qed

text \<open>
  Claim C4 as stated fails across positions. With the dictionary \<open>ab\<close>, \<open>baab\<close> and
  the line \<open>abaab\<close> the shorter entry is a substring of the longer one, the longer one
  stands in the line from offset 1 on, and the tokens are the name \<open>ab\<close>, the plain text
  \<open>a\<close> and the name \<open>ab\<close>: the leftmost match takes the \<open>b\<close> that the longer entry
  begins with, and the longer entry is no token.
\<close>

theorem longest_name_cross_position_counterexample:
  "includesStr [0x62, 0x61, 0x61, 0x62] [0x61, 0x62]
   \<and> length [0x61, 0x62 :: jschar] < length [0x62, 0x61, 0x61, 0x62 :: jschar]
   \<and> startsWith (drop 1 [0x61, 0x62, 0x61, 0x61, 0x62]) [0x62, 0x61, 0x61, 0x62]
   \<and> map view (tokenizeLine [0x61, 0x62, 0x61, 0x61, 0x62]
         [[0x61, 0x62], [0x62, 0x61, 0x61, 0x62]] 0 False now0)
       = [(NAME, [0x61, 0x62]), (STANDARD, [0x61]), (NAME, [0x61, 0x62])]"
  by (simp add: tokenizer_eval)

section \<open>Bold spans\<close>

text \<open>
  Claim C2. Every emitted span that is two stars, a non-empty inner text and two stars sits in
  the line right behind the spans before it, and its token has the inner text as text. Its
  type is \<open>BOLD\<close> when no dictionary name is a substring of the inner text. When one is, the
  type is \<open>NAME\<close> if the policy flag is off, and with the flag on it is \<open>NAME\<close> exactly when
  all of the line before the span is white space, and \<open>BOLD\<close> otherwise. Every match of the
  bold pattern is such a span. The line \<open>line_bold_d_rashid\<close> with the dictionary
  \<open>name_d_rashid\<close> and the flag on gives a \<open>NAME\<close> token with the name and the colon as text.
\<close>

theorem bold_span_classification:
  "(\<forall>i inner. i < length (spans ln names)
        \<and> spans ln names ! i = [chStar, chStar] @ inner @ [chStar, chStar] \<and> inner \<noteq> []
      \<longrightarrow> ln = concat (take i (spans ln names)) @ ([chStar, chStar] @ inner @ [chStar, chStar])
                @ concat (drop (Suc i) (spans ln names))
          \<and> tok_text (tokenizeLine ln names li a now ! i) = inner
          \<and> tok_type (tokenizeLine ln names li a now ! i)
              = (if \<exists>n \<in> set names. \<exists>u v. inner = u @ n @ v
                 then (if a \<and> \<not> (\<forall>c \<in> set (concat (take i (spans ln names))). isWhiteSpace c)
                       then BOLD else NAME)
                 else BOLD))
   \<and> (\<forall>s k. masterMatch names s = Some (BoldGroup, k)
        \<longrightarrow> (\<exists>inner. inner \<noteq> [] \<and> take k s = [chStar, chStar] @ inner @ [chStar, chStar]))
   \<and> map view (tokenizeLine line_bold_d_rashid [name_d_rashid] li True now)
       = [(NAME, name_d_rashid @ [0x3A]), (STANDARD, [0x20] @ word_qal)]"
proof (intro conjI allI impI)
  fix i inner
  assume h: "i < length (spans ln names)
        \<and> spans ln names ! i = [chStar, chStar] @ inner @ [chStar, chStar] \<and> inner \<noteq> []"
  then have i: "i < length (spans ln names)"
    and sp: "spans ln names ! i = [chStar, chStar] @ inner @ [chStar, chStar]"
    and ne: "inner \<noteq> []" by blast+
  show "ln = concat (take i (spans ln names)) @ ([chStar, chStar] @ inner @ [chStar, chStar])
                @ concat (drop (Suc i) (spans ln names))"
    using span_position[OF i] unfolding sp .
  have v: "view (tokenizeLine ln names li a now ! i)
      = (if \<exists>n \<in> set names. includesStr inner n
            then (if a \<and> \<not> (\<forall>c \<in> set (concat (take i (spans ln names))). isWhiteSpace c)
                  then BOLD else NAME)
            else BOLD, inner)"
    unfolding view_tokenizeLine_nth[OF i] sp classifyPart_bold[OF ne] take_offset[OF i] ..
  from v show "tok_text (tokenizeLine ln names li a now ! i) = inner"
    by (simp add: view_def)
  from v show "tok_type (tokenizeLine ln names li a now ! i)
              = (if \<exists>n \<in> set names. \<exists>u v. inner = u @ n @ v
                 then (if a \<and> \<not> (\<forall>c \<in> set (concat (take i (spans ln names))). isWhiteSpace c)
                       then BOLD else NAME)
                 else BOLD)"
    by (simp add: view_def includesStr_iff)
next
  fix s k assume "masterMatch names s = Some (BoldGroup, k)"
  then have "matchBold s = Some k" by (rule masterMatch_bold)
  then show "\<exists>inner. inner \<noteq> [] \<and> take k s = [chStar, chStar] @ inner @ [chStar, chStar]"
    using matchBold_shape by blast
next
  show "map view (tokenizeLine line_bold_d_rashid [name_d_rashid] li True now)
       = [(NAME, name_d_rashid @ [0x3A]), (STANDARD, [0x20] @ word_qal)]"
    by (simp add: tokenizer_eval line_bold_d_rashid_def name_d_rashid_def word_qal_def)
qed

theorem bold_span_classification_witness:
  "(0::nat) < length (spans line_bold_d_rashid [name_d_rashid])
   \<and> spans line_bold_d_rashid [name_d_rashid] ! 0
       = [chStar, chStar] @ (name_d_rashid @ [0x3A]) @ [chStar, chStar]
   \<and> name_d_rashid @ [0x3A] \<noteq> []
   \<and> masterMatch [name_d_rashid] line_bold_d_rashid = Some (BoldGroup, 12)
   \<and> tok_text (tokenizeLine line_bold_d_rashid [name_d_rashid] 0 True now0 ! 0)
       = name_d_rashid @ [0x3A]
   \<and> tok_type (tokenizeLine line_bold_d_rashid [name_d_rashid] 0 True now0 ! 0) = NAME"
proof -
  have s: "spans line_bold_d_rashid [name_d_rashid]
     = [[chStar, chStar] @ (name_d_rashid @ [0x3A]) @ [chStar, chStar], [0x20] @ word_qal]"
    by (simp add: tokenizer_eval line_bold_d_rashid_def name_d_rashid_def word_qal_def)
  have m: "masterMatch [name_d_rashid] line_bold_d_rashid = Some (BoldGroup, 12)"
    by (simp add: tokenizer_eval line_bold_d_rashid_def name_d_rashid_def word_qal_def)
  have n: "\<exists>n \<in> set [name_d_rashid]. \<exists>u v. name_d_rashid @ [0x3A] = u @ n @ v"
    by (intro bexI[of _ name_d_rashid] exI[of _ "[]"] exI[of _ "[0x3A]"]) simp_all
  have "tok_text (tokenizeLine line_bold_d_rashid [name_d_rashid] 0 True now0 ! 0)
       = name_d_rashid @ [0x3A]
     \<and> tok_type (tokenizeLine line_bold_d_rashid [name_d_rashid] 0 True now0 ! 0) = NAME"
    using bold_span_classification [of line_bold_d_rashid "[name_d_rashid]" 0 True now0,
        THEN conjunct1, rule_format, of 0 "name_d_rashid @ [0x3A]"]
      s n by simp
  then show ?thesis using s m by (simp add: line_bold_d_rashid_def name_d_rashid_def word_qal_def)
qed

section \<open>Bare dictionary matches\<close>

text \<open>
  Claim C3 at its failing inputs. With the dictionary entry \<open>[x\<close>, the policy flag off and
  the line \<open>[x\<close>, no citation, bold or italic pattern matches, the names group matches the
  whole line, and the token is of type \<open>QURAN\<close>, not \<open>NAME\<close>: the test of line 76 takes the
  part before the dictionary test of line 114 is reached. With the dictionary entry \<open>*\<close>
  and the line \<open>a*\<close> the names group matches the star, and its token is of type \<open>ITALIC\<close>
  with the empty text.
\<close>

theorem bare_name_typed_by_shape:
  "matchQuran [0x5B, 0x78] = None \<and> matchBold [0x5B, 0x78] = None
   \<and> matchItalic [0x5B, 0x78] = None
   \<and> masterMatch [[0x5B, 0x78]] [0x5B, 0x78] = Some (NamesGroup, 2)
   \<and> split [0x5B, 0x78] [[0x5B, 0x78]] = [Some [], None, None, None, Some [0x5B, 0x78], Some []]
   \<and> map view (tokenizeLine [0x5B, 0x78] [[0x5B, 0x78]] 0 False now0) = [(QURAN, [0x5B, 0x78])]
   \<and> split [0x61, 0x2A] [[0x2A]] = [Some [0x61], None, None, None, Some [0x2A], Some []]
   \<and> map view (tokenizeLine [0x61, 0x2A] [[0x2A]] 0 False now0)
       = [(STANDARD, [0x61]), (ITALIC, [])]"
  by (simp add: tokenizer_eval)

text \<open>
  Where the shape tests do not fire, the dictionary test decides as the policy says. Every
  emitted span that is a dictionary entry, does not start with \<open>{\<close>, U+FD3F or \<open>[\<close>, and
  does not both start and end with a star or both start and end with an underscore, sits in
  the line right behind the spans before it, and its token has the span as text. Its type is
  \<open>NAME\<close> if the policy flag is off; with the flag on it is \<open>NAME\<close> exactly when all of the
  line before the span is white space, and \<open>STANDARD\<close> otherwise. Every match of the names
  group is a dictionary entry. The line \<open>line_marhaba_mustafa\<close> with the dictionary
  \<open>name_mustafa\<close> gives the name as \<open>STANDARD\<close> with the flag on and as \<open>NAME\<close> with the flag
  off; \<open>line_mustafa_qal\<close> gives it as \<open>NAME\<close> with the flag on.
\<close>

lemma name_policy_without_marker_shape:
  "(\<forall>i. i < length (spans ln names) \<and> spans ln names ! i \<in> set names
        \<and> \<not> startsWith (spans ln names ! i) [chLBrace]
        \<and> \<not> startsWith (spans ln names ! i) [chLOrnate]
        \<and> \<not> startsWith (spans ln names ! i) [chLBracket]
        \<and> \<not> (startsWith (spans ln names ! i) [chStar] \<and> endsWith (spans ln names ! i) [chStar])
        \<and> \<not> (startsWith (spans ln names ! i) [chUnderscore]
              \<and> endsWith (spans ln names ! i) [chUnderscore])
      \<longrightarrow> ln = concat (take i (spans ln names)) @ spans ln names ! i
                @ concat (drop (Suc i) (spans ln names))
          \<and> tok_text (tokenizeLine ln names li a now ! i) = spans ln names ! i
          \<and> tok_type (tokenizeLine ln names li a now ! i)
              = (if a \<and> \<not> (\<forall>c \<in> set (concat (take i (spans ln names))). isWhiteSpace c)
                 then STANDARD else NAME))
   \<and> (\<forall>s k. masterMatch names s = Some (NamesGroup, k) \<longrightarrow> take k s \<in> set names)
   \<and> map view (tokenizeLine line_marhaba_mustafa [name_mustafa] li True now)
       = [(STANDARD, word_marhaba @ [0x20]), (STANDARD, name_mustafa)]
   \<and> map view (tokenizeLine line_marhaba_mustafa [name_mustafa] li False now)
       = [(STANDARD, word_marhaba @ [0x20]), (NAME, name_mustafa)]
   \<and> map view (tokenizeLine line_mustafa_qal [name_mustafa] li True now)
       = [(NAME, name_mustafa), (STANDARD, [0x20] @ word_qal)]"
proof (intro conjI allI impI)
  fix i
  assume h: "i < length (spans ln names) \<and> spans ln names ! i \<in> set names
        \<and> \<not> startsWith (spans ln names ! i) [chLBrace]
        \<and> \<not> startsWith (spans ln names ! i) [chLOrnate]
        \<and> \<not> startsWith (spans ln names ! i) [chLBracket]
        \<and> \<not> (startsWith (spans ln names ! i) [chStar] \<and> endsWith (spans ln names ! i) [chStar])
        \<and> \<not> (startsWith (spans ln names ! i) [chUnderscore]
              \<and> endsWith (spans ln names ! i) [chUnderscore])"
  then have i: "i < length (spans ln names)" by blast
  show "ln = concat (take i (spans ln names)) @ spans ln names ! i
                @ concat (drop (Suc i) (spans ln names))"
    using i by (rule span_position)
  have c: "classifyPart ln names a (length (concat (take i (spans ln names)))) (spans ln names ! i)
      = (if a \<and> \<not> (\<forall>c \<in> set (take (length (concat (take i (spans ln names)))) ln).
                       isWhiteSpace c)
         then STANDARD else NAME, spans ln names ! i)"
    using h by (intro classifyPart_name) blast+
  have v: "view (tokenizeLine ln names li a now ! i)
      = (if a \<and> \<not> (\<forall>c \<in> set (concat (take i (spans ln names))). isWhiteSpace c)
         then STANDARD else NAME, spans ln names ! i)"
    unfolding view_tokenizeLine_nth[OF i] c take_offset[OF i] ..
  from v show "tok_text (tokenizeLine ln names li a now ! i) = spans ln names ! i"
    by (simp add: view_def)
  from v show "tok_type (tokenizeLine ln names li a now ! i)
              = (if a \<and> \<not> (\<forall>c \<in> set (concat (take i (spans ln names))). isWhiteSpace c)
                 then STANDARD else NAME)"
    by (simp add: view_def)
next
  fix s k assume "masterMatch names s = Some (NamesGroup, k)"
  then have "matchNames (sortNames names) s = Some k"
    by (simp add: masterMatch_names)
  then obtain n where "n \<in> set names" "startsWith s n" "length n = k"
    using matchNames_Some set_sortNames by blast
  then show "take k s \<in> set names" by (auto simp: startsWith_take)
next
  show "map view (tokenizeLine line_marhaba_mustafa [name_mustafa] li True now)
       = [(STANDARD, word_marhaba @ [0x20]), (STANDARD, name_mustafa)]"
    by (simp add: tokenizer_eval line_marhaba_mustafa_def line_mustafa_qal_def name_mustafa_def
      word_marhaba_def word_qal_def)
  show "map view (tokenizeLine line_marhaba_mustafa [name_mustafa] li False now)
       = [(STANDARD, word_marhaba @ [0x20]), (NAME, name_mustafa)]"
    by (simp add: tokenizer_eval line_marhaba_mustafa_def line_mustafa_qal_def name_mustafa_def
      word_marhaba_def word_qal_def)
  show "map view (tokenizeLine line_mustafa_qal [name_mustafa] li True now)
       = [(NAME, name_mustafa), (STANDARD, [0x20] @ word_qal)]"
    by (simp add: tokenizer_eval line_marhaba_mustafa_def line_mustafa_qal_def name_mustafa_def
      word_marhaba_def word_qal_def)
qed

lemma name_policy_example_marhaba_mustafa:
  "(1::nat) < length (spans line_marhaba_mustafa [name_mustafa])
   \<and> spans line_marhaba_mustafa [name_mustafa] ! 1 = name_mustafa
   \<and> name_mustafa \<in> set [name_mustafa]
   \<and> \<not> startsWith name_mustafa [chLBrace] \<and> \<not> startsWith name_mustafa [chLOrnate]
   \<and> \<not> startsWith name_mustafa [chLBracket]
   \<and> \<not> (startsWith name_mustafa [chStar] \<and> endsWith name_mustafa [chStar])
   \<and> \<not> (startsWith name_mustafa [chUnderscore] \<and> endsWith name_mustafa [chUnderscore])
   \<and> masterMatch [name_mustafa] name_mustafa = Some (NamesGroup, 5)
   \<and> tok_text (tokenizeLine line_marhaba_mustafa [name_mustafa] 0 True now0 ! 1) = name_mustafa
   \<and> tok_type (tokenizeLine line_marhaba_mustafa [name_mustafa] 0 True now0 ! 1) = STANDARD"
proof -
  have s: "spans line_marhaba_mustafa [name_mustafa] = [word_marhaba @ [0x20], name_mustafa]"
    by (simp add: tokenizer_eval line_marhaba_mustafa_def name_mustafa_def word_marhaba_def)
  have m: "masterMatch [name_mustafa] name_mustafa = Some (NamesGroup, 5)"
    by (simp add: tokenizer_eval line_marhaba_mustafa_def name_mustafa_def word_marhaba_def)
  have shape: "\<not> startsWith name_mustafa [chLBrace] \<and> \<not> startsWith name_mustafa [chLOrnate]
   \<and> \<not> startsWith name_mustafa [chLBracket]
   \<and> \<not> (startsWith name_mustafa [chStar] \<and> endsWith name_mustafa [chStar])
   \<and> \<not> (startsWith name_mustafa [chUnderscore] \<and> endsWith name_mustafa [chUnderscore])"
    by (simp add: line_marhaba_mustafa_def name_mustafa_def word_marhaba_def)
  have w: "\<not> (\<forall>c \<in> set (word_marhaba @ [0x20]). isWhiteSpace c)"
    by (simp add: line_marhaba_mustafa_def name_mustafa_def word_marhaba_def isWhiteSpace_def)
  have "tok_text (tokenizeLine line_marhaba_mustafa [name_mustafa] 0 True now0 ! 1) = name_mustafa
   \<and> tok_type (tokenizeLine line_marhaba_mustafa [name_mustafa] 0 True now0 ! 1) = STANDARD"
    using name_policy_without_marker_shape [of line_marhaba_mustafa "[name_mustafa]" 0 True now0,
        THEN conjunct1, rule_format, of 1]
      s shape w by simp
  then show ?thesis using s m shape by simp
qed

section \<open>Citations\<close>

text \<open>
  Claim C5, amended. The citation pattern matches the whole line \<open>line_citation\<close>, and with
  every dictionary and either policy flag the line is tokenized to exactly one token, of
  type \<open>QURAN\<close>, whose text is the whole line with its delimiters. With the bracket style
  \<open>round\<close> the component renders it as \<open>(\<close>, the quotation \<open>text_allah_nur\<close> without its
  braces, \<open>)\<close>, and as citation content the reference \<open>text_ref_nur_35\<close> together with the
  space that precedes it in the line.
\<close>

theorem citation_example_decomposition:
  "matchQuran line_citation = Some (length line_citation)
   \<and> map view (tokenizeLine line_citation names li a now) = [(QURAN, line_citation)]
   \<and> previewQuranToken line_citation round
       = BracketedVerse [0x28] text_allah_nur [0x29] ([0x20] @ text_ref_nur_35)"
proof (intro conjI)
  have ne: "line_citation \<noteq> []" by (simp add: line_citation_def)
  show m: "matchQuran line_citation = Some (length line_citation)"
    by (simp add: matchQuran_def matchVerse_def matchReference_def isWhiteSpace_def
      line_citation_def text_allah_nur_def text_ref_nur_35_def)
  have c: "classifyPart line_citation names a 0 line_citation = (QURAN, line_citation)"
    by (simp add: classifyPart_def line_citation_def)
  show "map view (tokenizeLine line_citation names li a now) = [(QURAN, line_citation)]"
    unfolding view_whole_citation[OF ne m] c ..
  show "previewQuranToken line_citation round
       = BracketedVerse [0x28] text_allah_nur [0x29] ([0x20] @ text_ref_nur_35)"
    by (simp add: previewQuranToken_def verseMatch_def matchVerse_def
      matchReference_def isWhiteSpace_def endsWith_def slice_js_def line_citation_def
      text_allah_nur_def text_ref_nur_35_def)
qed

text \<open>
  Claim C5 as stated gives the reference without the space: the citation content that the
  component keeps is not \<open>text_ref_nur_35\<close> itself.
\<close>

theorem citation_example_reference_counterexample:
  "map view (tokenizeLine line_citation [] 0 False now0) = [(QURAN, line_citation)]
   \<and> citationContent (previewQuranToken line_citation round) \<noteq> text_ref_nur_35"
  by (simp add: tokenizer_eval previewQuranToken_def verseMatch_def matchVerse_def
      matchReference_def isWhiteSpace_def endsWith_def slice_js_def line_citation_def
      text_allah_nur_def text_ref_nur_35_def)

text \<open>
  Claim C8. The citation pattern matches the whole line \<open>text_ref_nur_35\<close>, and with every
  dictionary and either policy flag the line alone is tokenized to exactly one token, of
  type \<open>QURAN\<close>. Every token text that starts with \<open>[\<close> and ends with \<open>]\<close> is rendered as
  \<open>StandaloneCitation\<close> of the whole text: no quotation, the whole bracketed text as the
  reference, and no bracket of the configured style around it.
\<close>

theorem standalone_reference:
  "matchQuran text_ref_nur_35 = Some (length text_ref_nur_35)
   \<and> map view (tokenizeLine text_ref_nur_35 names li a now) = [(QURAN, text_ref_nur_35)]
   \<and> (\<forall>t style. startsWith t [chLBracket] \<and> endsWith t [chRBracket]
        \<longrightarrow> previewQuranToken t style = StandaloneCitation t)"
proof (intro conjI)
  have ne: "text_ref_nur_35 \<noteq> []" by (simp add: text_ref_nur_35_def)
  show m: "matchQuran text_ref_nur_35 = Some (length text_ref_nur_35)"
    by (simp add: matchQuran_def matchVerse_def text_ref_nur_35_def)
  have c: "classifyPart text_ref_nur_35 names a 0 text_ref_nur_35 = (QURAN, text_ref_nur_35)"
    by (simp add: classifyPart_def text_ref_nur_35_def)
  show "map view (tokenizeLine text_ref_nur_35 names li a now) = [(QURAN, text_ref_nur_35)]"
    unfolding view_whole_citation[OF ne m] c ..
  show "\<forall>t style. startsWith t [chLBracket] \<and> endsWith t [chRBracket]
        \<longrightarrow> previewQuranToken t style = StandaloneCitation t"
    by (simp add: previewQuranToken_def)
qed

theorem standalone_reference_witness:
  "startsWith text_ref_nur_35 [chLBracket] \<and> endsWith text_ref_nur_35 [chRBracket]
   \<and> previewQuranToken text_ref_nur_35 round = StandaloneCitation text_ref_nur_35"
proof -
  have h: "startsWith text_ref_nur_35 [chLBracket] \<and> endsWith text_ref_nur_35 [chRBracket]"
    by (simp add: text_ref_nur_35_def endsWith_def)
  show ?thesis
    using standalone_reference [of "[]" 0 False now0, THEN conjunct2, THEN conjunct2,
        rule_format, of text_ref_nur_35 round] h
    by blast
qed

text \<open>
  Claim C9, amended. For a token text that is not a bracketed reference (it does not both
  start with \<open>[\<close> and end with \<open>]\<close>) and that the two-part expression does not match,
  the component renders no citation content, and as content the whole text, except that a
  text which starts with \<open>{\<close> and ends with \<open>}\<close>, or starts with U+FD3F and ends with
  U+FD3E, loses its first and its last code unit.
\<close>

theorem decomposer_fallback:
  "\<not> (startsWith t [chLBracket] \<and> endsWith t [chRBracket]) \<Longrightarrow> verseMatch t = None \<Longrightarrow>
   previewQuranToken t style
     = BracketedVerse (fst (getBrackets style))
         (if (startsWith t [chLBrace] \<and> endsWith t [chRBrace])
             \<or> (startsWith t [chLOrnate] \<and> endsWith t [chROrnate])
          then slice_js t 1 1 else t)
         (snd (getBrackets style)) []"
  by (cases "getBrackets style") (simp add: previewQuranToken_def)

theorem decomposer_fallback_witness:
  "\<not> (startsWith [0x7B, 0x61] [chLBracket] \<and> endsWith [0x7B, 0x61] [chRBracket])
   \<and> verseMatch [0x7B, 0x61] = None
   \<and> map view (tokenizeLine [0x7B, 0x61] [] 0 False now0) = [(QURAN, [0x7B, 0x61])]
   \<and> previewQuranToken [0x7B, 0x61] round = BracketedVerse [0x28] [0x7B, 0x61] [0x29] []"
proof -
  have 1: "\<not> (startsWith [0x7B, 0x61] [chLBracket] \<and> endsWith [0x7B, 0x61] [chRBracket])"
    by simp
  have 2: "verseMatch [0x7B, 0x61] = None"
    by (simp add: previewQuranToken_def verseMatch_def matchVerse_def
      matchReference_def isWhiteSpace_def endsWith_def slice_js_def)
  have 3: "map view (tokenizeLine [0x7B, 0x61] [] 0 False now0) = [(QURAN, [0x7B, 0x61])]"
    by (simp add: tokenizer_eval)
  show ?thesis
    using decomposer_fallback [OF 1 2, of round] 1 2 3
    by (simp add: endsWith_def)
qed

text \<open>
  Claim C9 as stated fails for the line \<open>{}\<close>: it is tokenized to one \<open>QURAN\<close> token, the
  two-part expression does not match its text, and the content rendered is the empty string
  and not the text: the braces are stripped.
\<close>

theorem decomposer_fallback_strips_counterexample:
  "map view (tokenizeLine [0x7B, 0x7D] [] 0 False now0) = [(QURAN, [0x7B, 0x7D])]
   \<and> verseMatch [0x7B, 0x7D] = None
   \<and> previewQuranToken [0x7B, 0x7D] curly = BracketedVerse [0x7B] [] [0x7D] []
   \<and> content (previewQuranToken [0x7B, 0x7D] curly) \<noteq> [0x7B, 0x7D]"
  by (simp add: tokenizer_eval previewQuranToken_def verseMatch_def matchVerse_def
      matchReference_def isWhiteSpace_def endsWith_def slice_js_def)

section \<open>Unmatched markers\<close>

lemma slice_js_1_1_Nil: "slice_js part 1 1 = [] \<longleftrightarrow> length part \<le> 2"
  by (cases part) (auto simp: slice_js_def)

lemma short_star:
  "part \<noteq> [] \<Longrightarrow> length part \<le> 2 \<Longrightarrow> startsWith part [c] \<Longrightarrow> endsWith part [c]
   \<Longrightarrow> part = [c] \<or> part = [c, c]"
proof -
  assume a: "part \<noteq> []" "length part \<le> 2" "startsWith part [c]" "endsWith part [c]"
  then obtain x xs where p: "part = x # xs" by (cases part) auto
  show ?thesis
  proof (cases xs)
    case Nil
    with p a show ?thesis by simp
  next
    case (Cons y ys)
    with p a have "ys = []" by simp
    with p Cons a show ?thesis by (simp add: endsWith_def)
  qed
qed

lemma classifyPart_empty_text:
  assumes "part \<noteq> []"
  shows "snd (classifyPart ln ns a cur part) = []
         \<longleftrightarrow> part \<in> {[chStar], [chStar, chStar], [chUnderscore], [chUnderscore, chUnderscore]}"
proof -
  consider (q) "startsWith part [chLBrace] \<or> startsWith part [chLOrnate] \<or> startsWith part [chLBracket]"
    | (b) "\<not> (startsWith part [chLBrace] \<or> startsWith part [chLOrnate] \<or> startsWith part [chLBracket])"
          "startsWith part [chStar, chStar] \<and> endsWith part [chStar, chStar] \<and> length part > 4"
    | (i) "\<not> (startsWith part [chLBrace] \<or> startsWith part [chLOrnate] \<or> startsWith part [chLBracket])"
          "\<not> (startsWith part [chStar, chStar] \<and> endsWith part [chStar, chStar] \<and> length part > 4)"
          "(startsWith part [chStar] \<and> endsWith part [chStar])
              \<or> (startsWith part [chUnderscore] \<and> endsWith part [chUnderscore])"
    | (n) "\<not> (startsWith part [chLBrace] \<or> startsWith part [chLOrnate] \<or> startsWith part [chLBracket])"
          "\<not> (startsWith part [chStar, chStar] \<and> endsWith part [chStar, chStar] \<and> length part > 4)"
          "\<not> ((startsWith part [chStar] \<and> endsWith part [chStar])
              \<or> (startsWith part [chUnderscore] \<and> endsWith part [chUnderscore]))"
    by blast
  then show ?thesis
  proof cases
    case q
    then have "snd (classifyPart ln ns a cur part) = part" by (simp add: classifyPart_def)
    moreover from q have "part \<notin> {[chStar], [chStar, chStar], [chUnderscore], [chUnderscore, chUnderscore]}"
      by auto
    ultimately show ?thesis using assms by simp
  next
    case b
    have e1: "(startsWith part [chLBrace] \<or> startsWith part [chLOrnate]
               \<or> startsWith part [chLBracket]) = False"
      using b(1) by blast
    have e2: "(startsWith part [chStar, chStar] \<and> endsWith part [chStar, chStar]
               \<and> length part > 4) = True"
      using b(2) by blast
    have "snd (classifyPart ln ns a cur part) = slice_js part 2 2"
      unfolding classifyPart_def Let_def e1 e2 by simp
    moreover from b have "slice_js part 2 2 \<noteq> []" by (simp add: slice_js_def)
    moreover from b have "part \<notin> {[chStar], [chStar, chStar], [chUnderscore], [chUnderscore, chUnderscore]}"
      by auto
    ultimately show ?thesis by simp
  next
    case i
    have e1: "(startsWith part [chLBrace] \<or> startsWith part [chLOrnate]
               \<or> startsWith part [chLBracket]) = False"
      using i(1) by blast
    have e2: "(startsWith part [chStar, chStar] \<and> endsWith part [chStar, chStar]
               \<and> length part > 4) = False"
      using i(2) by blast
    have e3: "((startsWith part [chStar] \<and> endsWith part [chStar])
              \<or> (startsWith part [chUnderscore] \<and> endsWith part [chUnderscore])) = True"
      using i(3) by blast
    have s: "snd (classifyPart ln ns a cur part) = slice_js part 1 1"
      unfolding classifyPart_def Let_def e1 e2 e3 by simp
    show ?thesis
    proof
      assume "snd (classifyPart ln ns a cur part) = []"
      then have "length part \<le> 2" using s slice_js_1_1_Nil by simp
      with i(3) assms show "part \<in> {[chStar], [chStar, chStar], [chUnderscore], [chUnderscore, chUnderscore]}"
        using short_star by blast
    next
      assume "part \<in> {[chStar], [chStar, chStar], [chUnderscore], [chUnderscore, chUnderscore]}"
      then have "length part \<le> 2" by auto
      then show "snd (classifyPart ln ns a cur part) = []" using s slice_js_1_1_Nil by simp
    qed
  next
    case n
    have e1: "(startsWith part [chLBrace] \<or> startsWith part [chLOrnate]
               \<or> startsWith part [chLBracket]) = False"
      using n(1) by blast
    have e2: "(startsWith part [chStar, chStar] \<and> endsWith part [chStar, chStar]
               \<and> length part > 4) = False"
      using n(2) by blast
    have e3: "((startsWith part [chStar] \<and> endsWith part [chStar])
              \<or> (startsWith part [chUnderscore] \<and> endsWith part [chUnderscore])) = False"
      using n(3) by blast
    have "snd (classifyPart ln ns a cur part) = part"
      unfolding classifyPart_def Let_def e1 e2 e3 by simp
    moreover from n(3) have "part \<notin> {[chStar], [chStar, chStar], [chUnderscore], [chUnderscore, chUnderscore]}"
      by (auto simp: endsWith_def)
    ultimately show ?thesis using assms by simp
  qed
qed

text \<open>
  A token has the empty text exactly when its span is a lone \<open>*\<close>, \<open>**\<close>, \<open>_\<close> or \<open>__\<close>.
\<close>

lemma empty_text_only_from_lone_markers:
  assumes "i < length (spans ln ns)"
  shows "tok_text (tokenizeLine ln ns li a now ! i) = []
         \<longleftrightarrow> spans ln ns ! i
             \<in> {[chStar], [chStar, chStar], [chUnderscore], [chUnderscore, chUnderscore]}"
proof -
  have ne: "spans ln ns ! i \<noteq> []" using assms spans_nonempty nth_mem by blast
  have "tok_text (tokenizeLine ln ns li a now ! i) = snd (view (tokenizeLine ln ns li a now ! i))"
    by (simp add: view_def)
  then show ?thesis
    unfolding view_tokenizeLine_nth[OF assms] using classifyPart_empty_text[OF ne] by simp
qed

text \<open>
  A span that is no dictionary entry, does not start with \<open>{\<close>, U+FD3F or \<open>[\<close>, and does
  not both start and end with a star or with an underscore gives a \<open>STANDARD\<close> token with
  the span as text.
\<close>

lemma classifyPart_standard:
  assumes "part \<notin> set ns"
    and "\<not> startsWith part [chLBrace]" "\<not> startsWith part [chLOrnate]"
    and "\<not> startsWith part [chLBracket]"
    and "\<not> (startsWith part [chStar] \<and> endsWith part [chStar])"
    and "\<not> (startsWith part [chUnderscore] \<and> endsWith part [chUnderscore])"
  shows "classifyPart ln ns a cur part = (STANDARD, part)"
proof -
  have "\<not> (startsWith part [chStar, chStar] \<and> endsWith part [chStar, chStar])"
  proof
    assume h: "startsWith part [chStar, chStar] \<and> endsWith part [chStar, chStar]"
    then obtain v where "part = [chStar, chStar] @ v" using startsWith_iff by blast
    then have "part = [chStar] @ (chStar # v)" by simp
    then have 1: "startsWith part [chStar]" using startsWith_iff by blast
    from h obtain u where "part = u @ [chStar, chStar]" using endsWith_iff by blast
    then have "part = (u @ [chStar]) @ [chStar]" by simp
    then have "endsWith part [chStar]" using endsWith_iff by blast
    with 1 assms(5) show False by blast
  qed
  then have b: "(startsWith part [chStar, chStar] \<and> endsWith part [chStar, chStar]
                 \<and> length part > 4) = False"
    by blast
  have q: "(startsWith part [chLBrace] \<or> startsWith part [chLOrnate]
            \<or> startsWith part [chLBracket]) = False"
    using assms(2-4) by simp
  have i: "((startsWith part [chStar] \<and> endsWith part [chStar])
            \<or> (startsWith part [chUnderscore] \<and> endsWith part [chUnderscore])) = False"
    using assms(5,6) by simp
  have m: "(part \<in> set ns) = False"
    using assms(1) by simp
  show ?thesis
    unfolding classifyPart_def Let_def q b i m by simp
qed

text \<open>
  Claim C6 at its failing inputs. In the line \<open>**\<close> and in the line \<open>[a\<close> no pattern
  matches: \<open>split\<close> returns the line as its only part. The token of \<open>**\<close> is of type
  \<open>ITALIC\<close> with the empty text, and the token of \<open>[a\<close> is of type \<open>QURAN\<close>; neither is
  \<open>STANDARD\<close>.
\<close>

theorem lone_markers_not_standard:
  "split [0x2A, 0x2A] [] = [Some [0x2A, 0x2A]]
   \<and> map view (tokenizeLine [0x2A, 0x2A] [] 0 False now0) = [(ITALIC, [])]
   \<and> split [0x5B, 0x61] [] = [Some [0x5B, 0x61]]
   \<and> map view (tokenizeLine [0x5B, 0x61] [] 0 False now0) = [(QURAN, [0x5B, 0x61])]"
  by (simp add: tokenizer_eval)

text \<open>
  Claim C7 at its failing input. The line of one underscore matches no pattern and gives one
  token, of type \<open>ITALIC\<close>, whose text is empty.
\<close>

theorem lone_underscore_empty_run:
  "split [0x5F] [] = [Some [0x5F]]
   \<and> map view (tokenizeLine [0x5F] [] 0 False now0) = [(ITALIC, [])]"
  by (simp add: tokenizer_eval)

end
